theory Spec2Isabelle
  imports Main "HOL-Library.Word"
begin

section \<open>The relation metadata cache of pglogical\_relmetacache.c\<close>

subsection \<open>Data model\<close>

text \<open>
  A relation is identified by its \<open>Oid\<close>, an unsigned 32-bit integer.
\<close>

type_synonym Oid = "32 word"

text \<open>
  \<open>struct PGLRelMetaCacheEntry\<close> is declared in a header; this file uses its fields
  \<open>relid\<close> (the hash key, at the start of the entry), \<open>is_cached\<close> and
  \<open>is_valid\<close>. Whatever else the struct holds is the extension part of the record
  scheme, of type \<open>'a\<close>, which no function of this file touches.
\<close>

record PGLRelMetaCacheEntry =
  relid :: Oid
  is_cached :: bool
  is_valid :: bool

type_synonym 'a entry = "'a PGLRelMetaCacheEntry_scheme"

text \<open>
  A dynahash table (\<open>HTAB\<close>) is the sequence of its elements, in the order a sequential
  scan meets them. A pointer to an element is its position in that sequence; it stays
  good until an element is removed.
\<close>

type_synonym 'a HTAB = "'a entry list"

text \<open>
  What stops the execution: a read through the null pointer, a read through a pointer to a
  destroyed table, a failed \<open>Assert\<close> (in a build with assertion checking), and the
  \<open>elog(ERROR, "hash table corrupted")\<close> of the pruning loop.
\<close>

datatype error = NullPointerDereference | UseAfterFree | AssertionFailure | HashTableCorrupted

text \<open>
  The state of the backend process, as far as this file sees it: the two file-level
  statics \<open>RelMetaCache\<close> (a pointer, \<open>None\<close> is \<open>NULL\<close>) and
  \<open>callback_registered\<close>; the memory in which hash tables live (address \<open>a\<close> holds
  \<open>htabs ! a\<close>, and \<open>None\<close> there is a table that was destroyed); and the number of
  times \<open>relmeta_cache_callback\<close> was handed to \<open>CacheRegisterRelcacheCallback\<close>.
\<close>

record 'a process =
  RelMetaCache :: "nat option"
  callback_registered :: bool
  htabs :: "'a HTAB option list"
  relcache_callbacks :: nat

definition process_start :: "'a process" where
  "process_start =
     \<lparr>RelMetaCache = None, callback_registered = False, htabs = [], relcache_callbacks = 0\<rparr>"

subsection \<open>The dynahash operations the file calls\<close>

text \<open>\<open>hash_create\<close> allocates a new, empty table and returns its address.\<close>

definition hash_create :: "'a process \<Rightarrow> nat \<times> 'a process" where
  "hash_create s = (length (htabs s), s\<lparr>htabs := htabs s @ [Some []]\<rparr>)"

text \<open>Reading the table behind a pointer.\<close>

definition deref :: "nat \<Rightarrow> 'a process \<Rightarrow> error + 'a HTAB" where
  "deref a s =
     (if a < length (htabs s)
      then (case htabs s ! a of None \<Rightarrow> Inl UseAfterFree | Some tab \<Rightarrow> Inr tab)
      else Inl UseAfterFree)"

definition put_htab :: "nat \<Rightarrow> 'a HTAB \<Rightarrow> 'a process \<Rightarrow> 'a process" where
  "put_htab a tab s = s\<lparr>htabs := (htabs s)[a := Some tab]\<rparr>"

text \<open>\<open>hash_destroy\<close> frees the table; the pointer handed in keeps its value.\<close>

definition hash_destroy :: "nat \<Rightarrow> 'a process \<Rightarrow> error + 'a process" where
  "hash_destroy a s =
     (case deref a s of
        Inl e \<Rightarrow> Inl e
      | Inr tab \<Rightarrow> Inr (s\<lparr>htabs := (htabs s)[a := None]\<rparr>))"

text \<open>\<open>hash_search(..., HASH_FIND, ...)\<close>: the element with the key, or \<open>NULL\<close>.\<close>

fun hash_search_find :: "Oid \<Rightarrow> 'a HTAB \<Rightarrow> nat option" where
  "hash_search_find k [] = None"
| "hash_search_find k (e # es) =
     (if relid e = k then Some 0 else map_option Suc (hash_search_find k es))"

text \<open>
  \<open>hash_search(..., HASH_ENTER, &found)\<close>: the element with the key if there is one;
  otherwise a new element. dynahash copies the key into the new element and leaves the
  rest of it as the allocator handed it out, for the caller to fill in: \<open>raw\<close> is that
  memory. The result is the pointer, \<open>found\<close>, and the table.
\<close>

definition hash_search_enter :: "'a entry \<Rightarrow> Oid \<Rightarrow> 'a HTAB \<Rightarrow> nat \<times> bool \<times> 'a HTAB" where
  "hash_search_enter raw k tab =
     (case hash_search_find k tab of
        Some i \<Rightarrow> (i, True, tab)
      | None \<Rightarrow> (length tab, False, tab @ [raw\<lparr>relid := k\<rparr>]))"

text \<open>
  \<open>hash_search(..., HASH_REMOVE, ...)\<close>: \<open>None\<close> is the \<open>NULL\<close> returned when no
  element has the key; otherwise the element is unlinked.
\<close>

fun hash_search_remove :: "Oid \<Rightarrow> 'a HTAB \<Rightarrow> 'a HTAB option" where
  "hash_search_remove k [] = None"
| "hash_search_remove k (e # es) =
     (if relid e = k then Some es else map_option ((#) e) (hash_search_remove k es))"

subsection \<open>The functions of the file\<close>

text \<open>
  \<open>pglogical_init_relmetacache\<close>. \<open>ac\<close> says whether the build checks assertions
  (\<open>USE_ASSERT_CHECKING\<close>). The memory context argument only says where the table is
  allocated and is left out. The second assertion, \<open>RelMetaCache != NULL\<close> after
  \<open>hash_create\<close>, cannot fail: \<open>hash_create\<close> returns a table.
\<close>

definition pglogical_init_relmetacache :: "bool \<Rightarrow> 'a process \<Rightarrow> error + 'a process" where
  "pglogical_init_relmetacache ac s =
     (if ac \<and> RelMetaCache s \<noteq> None then Inl AssertionFailure
      else
        let (a, s1) = hash_create s;
            s2 = s1\<lparr>RelMetaCache := Some a\<rparr>
        in if \<not> callback_registered s2
           then Inr (s2\<lparr>relcache_callbacks := Suc (relcache_callbacks s2),
                        callback_registered := True\<rparr>)
           else Inr s2)"

text \<open>\<open>relmeta_cache_callback\<close>; its \<open>Datum\<close> argument is not used.\<close>

definition relmeta_cache_callback :: "Oid \<Rightarrow> 'a process \<Rightarrow> error + 'a process" where
  "relmeta_cache_callback k s =
     (case RelMetaCache s of
        None \<Rightarrow> Inr s
      | Some a \<Rightarrow>
          (case deref a s of
             Inl e \<Rightarrow> Inl e
           | Inr tab \<Rightarrow>
               (case hash_search_find k tab of
                  None \<Rightarrow> Inr s
                | Some i \<Rightarrow> Inr (put_htab a (tab[i := (tab ! i)\<lparr>is_valid := False\<rparr>]) s))))"

text \<open>
  \<open>pglogical_cache_relmeta\<close>. Of \<open>rel\<close> only \<open>RelationGetRelid(rel)\<close> is used, and
  \<open>data\<close> not at all. The result is the new state, the pointer stored in \<open>*entry\<close>, and
  the returned \<open>bool\<close>. \<open>Assert(hentry->relid = RelationGetRelid(rel))\<close> is an
  assignment: with assertion checking it stores the key and fails when the key is zero;
  without, it is nothing.
\<close>

definition pglogical_cache_relmeta ::
  "bool \<Rightarrow> 'a entry \<Rightarrow> Oid \<Rightarrow> 'a process \<Rightarrow> error + ('a process \<times> nat \<times> bool)" where
  "pglogical_cache_relmeta ac raw k s =
     (case RelMetaCache s of
        None \<Rightarrow> Inl NullPointerDereference
      | Some a \<Rightarrow>
          (case deref a s of
             Inl e \<Rightarrow> Inl e
           | Inr tab \<Rightarrow>
               (let (i, found, tab1) = hash_search_enter raw k tab
                in if \<not> found
                   then
                     (if ac \<and> k = 0 then Inl AssertionFailure
                      else
                        let tab2 = (if ac then tab1[i := (tab1 ! i)\<lparr>relid := k\<rparr>] else tab1);
                            tab3 = tab2[i := (tab2 ! i)\<lparr>is_cached := False\<rparr>]
                        in Inr (put_htab a tab3 s, i, is_cached (tab3 ! i)))
                   else Inr (put_htab a tab1 s, i, is_cached (tab1 ! i)))))"

text \<open>
  \<open>pglogical_destroy_relmetacache\<close>, and the states it goes through: the one after
  \<open>hash_destroy(RelMetaCache)\<close> and the one after \<open>RelMetaCache = NULL\<close>.
\<close>

definition destroy_steps :: "'a process \<Rightarrow> (error + 'a process) list" where
  "destroy_steps s =
     (case RelMetaCache s of
        None \<Rightarrow> []
      | Some a \<Rightarrow>
          (case hash_destroy a s of
             Inl e \<Rightarrow> [Inl e]
           | Inr s1 \<Rightarrow> [Inr s1, Inr (s1\<lparr>RelMetaCache := None\<rparr>)]))"

definition pglogical_destroy_relmetacache :: "'a process \<Rightarrow> error + 'a process" where
  "pglogical_destroy_relmetacache s =
     (case RelMetaCache s of
        None \<Rightarrow> Inr s
      | Some a \<Rightarrow>
          (case hash_destroy a s of
             Inl e \<Rightarrow> Inl e
           | Inr s1 \<Rightarrow> Inr (s1\<lparr>RelMetaCache := None\<rparr>)))"

text \<open>
  \<open>pglogical_prune_relmetacache\<close>. \<open>hash_seq_search\<close> hands out, one by one, the
  elements that were in the table at \<open>hash_seq_init\<close>; removing the element just handed
  out does not disturb the scan. The loop takes the elements still to come and the table
  as it is now.
\<close>

fun prune_loop :: "'a entry list \<Rightarrow> 'a HTAB \<Rightarrow> error + 'a HTAB" where
  "prune_loop [] tab = Inr tab"
| "prune_loop (hentry # rest) tab =
     (if \<not> is_valid hentry
      then (case hash_search_remove (relid hentry) tab of
              None \<Rightarrow> Inl HashTableCorrupted
            | Some tab' \<Rightarrow> prune_loop rest tab')
      else prune_loop rest tab)"

definition pglogical_prune_relmetacache :: "'a process \<Rightarrow> error + 'a process" where
  "pglogical_prune_relmetacache s =
     (case RelMetaCache s of
        None \<Rightarrow> Inl NullPointerDereference
      | Some a \<Rightarrow>
          (case deref a s of
             Inl e \<Rightarrow> Inl e
           | Inr tab \<Rightarrow>
               (case prune_loop tab tab of
                  Inl e \<Rightarrow> Inl e
                | Inr tab' \<Rightarrow> Inr (put_htab a tab' s))))"

subsection \<open>Sequences of calls\<close>

datatype 'a call =
    Init
  | Invalidate Oid
  | CacheRelmeta "'a entry" Oid
  | Destroy
  | Prune

fun exec_call :: "bool \<Rightarrow> 'a call \<Rightarrow> 'a process \<Rightarrow> error + 'a process" where
  "exec_call ac Init s = pglogical_init_relmetacache ac s"
| "exec_call ac (Invalidate k) s = relmeta_cache_callback k s"
| "exec_call ac (CacheRelmeta raw k) s =
     (case pglogical_cache_relmeta ac raw k s of
        Inl e \<Rightarrow> Inl e
      | Inr (s', i, hit) \<Rightarrow> Inr s')"
| "exec_call ac Destroy s = pglogical_destroy_relmetacache s"
| "exec_call ac Prune s = pglogical_prune_relmetacache s"

fun run :: "bool \<Rightarrow> 'a call list \<Rightarrow> 'a process \<Rightarrow> error + 'a process" where
  "run ac [] s = Inr s"
| "run ac (c # cs) s =
     (case exec_call ac c s of Inl e \<Rightarrow> Inl e | Inr s' \<Rightarrow> run ac cs s')"

subsection \<open>Predicates used in the statements\<close>

text \<open>The global points to a live table at address \<open>a\<close> with contents \<open>tab\<close>.\<close>

definition bound_to :: "'a process \<Rightarrow> nat \<Rightarrow> 'a HTAB \<Rightarrow> bool" where
  "bound_to s a tab \<longleftrightarrow>
     RelMetaCache s = Some a \<and> a < length (htabs s) \<and> htabs s ! a = Some tab"

text \<open>The global points to a table that has been destroyed.\<close>

definition dangling :: "'a process \<Rightarrow> bool" where
  "dangling s \<longleftrightarrow>
     (case RelMetaCache s of
        None \<Rightarrow> False
      | Some a \<Rightarrow> (case deref a s of Inl e \<Rightarrow> True | Inr tab \<Rightarrow> False))"

text \<open>A hash table holds at most one element per key.\<close>

definition unique_keys :: "'a HTAB \<Rightarrow> bool" where
  "unique_keys tab \<longleftrightarrow> distinct (map relid tab)"

text \<open>
  Overwriting the \<open>is_cached\<close> flags of a table, each as a function of the element's
  key and of the flag's old value.
\<close>

definition rewrite_cached :: "(Oid \<Rightarrow> bool \<Rightarrow> bool) \<Rightarrow> 'a HTAB \<Rightarrow> 'a HTAB" where
  "rewrite_cached f tab = map (\<lambda>e. e\<lparr>is_cached := f (relid e) (is_cached e)\<rparr>) tab"

text \<open>
  A process in the middle of a decoding session: the callback is registered and the
  global points to the one table in memory.
\<close>

definition session_of :: "unit HTAB \<Rightarrow> unit process" where
  "session_of tab =
     \<lparr>RelMetaCache = Some 0, callback_registered = True, htabs = [Some tab],
      relcache_callbacks = 1\<rparr>"

text \<open>Every live table in memory has unique keys.\<close>

definition tables_unique :: "'a process \<Rightarrow> bool" where
  "tables_unique s \<longleftrightarrow>
     (\<forall>a < length (htabs s). \<forall>tab. htabs s ! a = Some tab \<longrightarrow> unique_keys tab)"

section \<open>Properties\<close>

subsection \<open>The state and the table operations\<close>

lemma bound_session_of: "bound_to (session_of tab) 0 tab"
  by (simp add: bound_to_def session_of_def)

lemma bound_to_deref: "bound_to s a tab \<Longrightarrow> deref a s = Inr tab"
  by (simp add: bound_to_def deref_def)

lemma bound_to_handle: "bound_to s a tab \<Longrightarrow> RelMetaCache s = Some a"
  by (simp add: bound_to_def)

lemma put_htab_same: "bound_to s a tab \<Longrightarrow> put_htab a tab s = s"
  by (simp add: bound_to_def put_htab_def list_update_same_conv)

lemma bound_to_put_htab: "bound_to s a tab \<Longrightarrow> bound_to (put_htab a tab' s) a tab'"
  by (simp add: bound_to_def put_htab_def)

lemma hash_search_find_Some:
  "hash_search_find k tab = Some i \<Longrightarrow> i < length tab \<and> relid (tab ! i) = k"
  by (induction tab arbitrary: i) (auto split: if_splits)

lemma hash_search_find_None: "hash_search_find k tab = None \<longleftrightarrow> k \<notin> relid ` set tab"
  by (induction tab) auto

lemma hash_search_remove_None: "hash_search_remove k tab = None \<longleftrightarrow> k \<notin> relid ` set tab"
  by (induction tab) auto

lemma hash_search_remove_append:
  "k \<notin> relid ` set pre \<Longrightarrow> relid e = k \<Longrightarrow>
   hash_search_remove k (pre @ e # es) = Some (pre @ es)"
  by (induction pre) auto

subsection \<open>The pruning loop\<close>

text \<open>
  The loop invariant: the elements already met and kept are valid and still in front of
  the table, the elements still to come are the rest of it.
\<close>

lemma prune_loop_scan:
  "\<forall>e \<in> set pre. is_valid e \<Longrightarrow> distinct (map relid (pre @ es)) \<Longrightarrow>
   prune_loop es (pre @ es) = Inr (pre @ filter is_valid es)"
proof (induction es arbitrary: pre)
  case Nil
  then show ?case by simp
next
  case (Cons e es)
  show ?case
  proof (cases "is_valid e")
    case True
    have "prune_loop es ((pre @ [e]) @ es) = Inr ((pre @ [e]) @ filter is_valid es)"
      using Cons.prems True by (intro Cons.IH) auto
    with True show ?thesis by simp
  next
    case False
    have rm: "hash_search_remove (relid e) (pre @ e # es) = Some (pre @ es)"
      using Cons.prems by (intro hash_search_remove_append) auto
    have "prune_loop es (pre @ es) = Inr (pre @ filter is_valid es)"
      using Cons.prems by (intro Cons.IH) auto
    with False rm show ?thesis by simp
  qed
qed

lemma prune_loop_table:
  "unique_keys tab \<Longrightarrow> prune_loop tab tab = Inr (filter is_valid tab)"
  using prune_loop_scan [of "[]" tab] by (simp add: unique_keys_def)

text \<open>
  Even without unique keys the loop never fails on a table it scans itself: each key
  occurs in the table at least as often as among the elements still to come.
\<close>

lemma count_remove:
  "hash_search_remove k tab = Some tab' \<Longrightarrow>
   count_list (map relid tab') k' = count_list (map relid tab) k' - (if k' = k then 1 else 0)"
  by (induction tab arbitrary: tab') (auto split: if_splits)

lemma prune_loop_total:
  "(\<And>k. count_list (map relid es) k \<le> count_list (map relid tab) k) \<Longrightarrow>
   \<exists>tab'. prune_loop es tab = Inr tab'"
proof (induction es arbitrary: tab)
  case Nil
  then show ?case by simp
next
  case (Cons e es)
  show ?case
  proof (cases "is_valid e")
    case True
    have "\<exists>tab'. prune_loop es tab = Inr tab'"
    proof (rule Cons.IH)
      fix k show "count_list (map relid es) k \<le> count_list (map relid tab) k"
        using Cons.prems [of k] by (simp split: if_splits)
    qed
    with True show ?thesis by simp
  next
    case False
    have "0 < count_list (map relid tab) (relid e)"
      using Cons.prems [of "relid e"] by simp
    then have "relid e \<in> relid ` set tab"
      by (metis count_list_0_iff neq0_conv set_map)
    then obtain tab1 where rm: "hash_search_remove (relid e) tab = Some tab1"
      using hash_search_remove_None [of "relid e" tab]
      by (cases "hash_search_remove (relid e) tab") auto
    have "\<exists>tab'. prune_loop es tab1 = Inr tab'"
    proof (rule Cons.IH)
      fix k show "count_list (map relid es) k \<le> count_list (map relid tab1) k"
        using Cons.prems [of k] count_remove [OF rm, of k] by (simp split: if_splits)
    qed
    with False rm show ?thesis by simp
  qed
qed

subsection \<open>Looking an entry up\<close>

text \<open>
  What the lookup does for a key that is not in the table: the new element is the
  allocator's memory with the key and \<open>is_cached = false\<close> written into it, and nothing
  else.
\<close>

lemma cache_relmeta_new:
  assumes "bound_to s a tab" "k \<notin> relid ` set tab" "\<not> (ac \<and> k = 0)"
  shows "pglogical_cache_relmeta ac raw k s =
           Inr (put_htab a (tab @ [raw\<lparr>relid := k, is_cached := False\<rparr>]) s, length tab, False)"
proof -
  have f: "hash_search_find k tab = None"
    using assms(2) by (simp add: hash_search_find_None)
  show ?thesis
    using assms(3)
    by (auto simp add: pglogical_cache_relmeta_def bound_to_handle [OF assms(1)]
        bound_to_deref [OF assms(1)] hash_search_enter_def f Let_def)
qed

subsection \<open>Unique keys are kept by every function\<close>

lemma nth_update_cases: "xs[a := v] ! b = y \<Longrightarrow> b < length xs \<Longrightarrow> (b = a \<and> y = v) \<or> xs ! b = y"
  by (cases "b = a") auto

lemma tables_unique_put:
  "tables_unique s \<Longrightarrow> unique_keys tab \<Longrightarrow> tables_unique (put_htab a tab s)"
  by (auto simp add: tables_unique_def put_htab_def dest: nth_update_cases)

lemma tables_unique_deref:
  "tables_unique s \<Longrightarrow> deref a s = Inr tab \<Longrightarrow> unique_keys tab"
  by (auto simp add: tables_unique_def deref_def split: if_splits option.splits)

lemma keys_invalidate:
  "i < length tab \<Longrightarrow> map relid (tab[i := (tab ! i)\<lparr>is_valid := False\<rparr>]) = map relid tab"
  by (simp add: map_update list_update_same_conv)

lemma init_tables_unique:
  "tables_unique s \<Longrightarrow> pglogical_init_relmetacache ac s = Inr s' \<Longrightarrow> tables_unique s'"
  by (auto simp add: pglogical_init_relmetacache_def hash_create_def tables_unique_def
      unique_keys_def Let_def nth_append split: if_splits)

lemma callback_tables_unique:
  assumes "tables_unique s" "relmeta_cache_callback k s = Inr s'"
  shows "tables_unique s'"
proof (cases "RelMetaCache s")
  case None
  with assms show ?thesis by (simp add: relmeta_cache_callback_def)
next
  case (Some a)
  with assms(2) obtain tab where d: "deref a s = Inr tab"
    by (auto simp add: relmeta_cache_callback_def split: sum.splits)
  have u: "unique_keys tab" by (rule tables_unique_deref [OF assms(1) d])
  show ?thesis
  proof (cases "hash_search_find k tab")
    case None
    with assms Some d show ?thesis by (simp add: relmeta_cache_callback_def)
  next
    case (Some i)
    have "unique_keys (tab[i := (tab ! i)\<lparr>is_valid := False\<rparr>])"
      using u hash_search_find_Some [OF Some] by (simp add: unique_keys_def keys_invalidate)
    from tables_unique_put [OF assms(1) this, of a] assms(2) \<open>RelMetaCache s = Some a\<close> d Some
    show ?thesis by (simp add: relmeta_cache_callback_def)
  qed
qed

lemma cache_relmeta_existing_state:
  assumes "bound_to s a tab" and "k \<in> relid ` set tab"
  shows "\<exists>i hit. pglogical_cache_relmeta ac raw k s = Inr (s, i, hit)"
proof -
  obtain i where f: "hash_search_find k tab = Some i"
    using assms(2) hash_search_find_None [of k tab] by (cases "hash_search_find k tab") auto
  show ?thesis
    by (simp add: pglogical_cache_relmeta_def bound_to_handle [OF assms(1)]
        bound_to_deref [OF assms(1)] hash_search_enter_def f put_htab_same [OF assms(1)])
qed

lemma cache_relmeta_tables_unique:
  assumes "tables_unique s" "pglogical_cache_relmeta ac raw k s = Inr (s', i, hit)"
  shows "tables_unique s'"
proof -
  from assms(2) obtain a tab where h: "RelMetaCache s = Some a" and d: "deref a s = Inr tab"
    by (auto simp add: pglogical_cache_relmeta_def split: option.splits sum.splits)
  have b: "bound_to s a tab"
    using h d by (auto simp add: bound_to_def deref_def split: if_splits option.splits)
  have u: "unique_keys tab" by (rule tables_unique_deref [OF assms(1) d])
  show ?thesis
  proof (cases "k \<in> relid ` set tab")
    case True
    from cache_relmeta_existing_state [OF b True, of ac raw] assms(2) assms(1)
    show ?thesis by auto
  next
    case False
    from assms(2) h d False have nz: "\<not> (ac \<and> k = 0)"
      by (auto simp add: pglogical_cache_relmeta_def hash_search_enter_def
          hash_search_find_None [symmetric])
    have "unique_keys (tab @ [raw\<lparr>relid := k, is_cached := False\<rparr>])"
      using u False by (auto simp add: unique_keys_def)
    from tables_unique_put [OF assms(1) this, of a] cache_relmeta_new [OF b False nz, of raw]
      assms(2)
    show ?thesis by simp
  qed
qed

lemma tables_unique_free:
  assumes "tables_unique s"
  shows "tables_unique (s\<lparr>htabs := (htabs s)[a := None], RelMetaCache := h\<rparr>)"
  unfolding tables_unique_def
proof (intro allI impI)
  fix b tab
  assume "b < length (htabs (s\<lparr>htabs := (htabs s)[a := None], RelMetaCache := h\<rparr>))"
    and "htabs (s\<lparr>htabs := (htabs s)[a := None], RelMetaCache := h\<rparr>) ! b = Some tab"
  then have b: "b < length (htabs s)" and "(htabs s)[a := None] ! b = Some tab"
    by simp_all
  from nth_update_cases [OF this(2) b] have "htabs s ! b = Some tab" by simp
  with assms b show "unique_keys tab" by (simp add: tables_unique_def)
qed

lemma destroy_tables_unique:
  "tables_unique s \<Longrightarrow> pglogical_destroy_relmetacache s = Inr s' \<Longrightarrow> tables_unique s'"
  by (auto simp add: pglogical_destroy_relmetacache_def hash_destroy_def
      intro: tables_unique_free split: option.splits sum.splits)

lemma prune_tables_unique:
  assumes "tables_unique s" "pglogical_prune_relmetacache s = Inr s'"
  shows "tables_unique s'"
proof -
  from assms(2) obtain a tab where h: "RelMetaCache s = Some a" and d: "deref a s = Inr tab"
    by (auto simp add: pglogical_prune_relmetacache_def split: option.splits sum.splits)
  have u: "unique_keys tab" by (rule tables_unique_deref [OF assms(1) d])
  have "unique_keys (filter is_valid tab)"
    using u by (simp add: unique_keys_def distinct_map_filter)
  from tables_unique_put [OF assms(1) this, of a] assms(2) h d prune_loop_table [OF u]
  show ?thesis by (simp add: pglogical_prune_relmetacache_def)
qed

lemma exec_call_tables_unique:
  "tables_unique s \<Longrightarrow> exec_call ac c s = Inr s' \<Longrightarrow> tables_unique s'"
  by (cases c)
     (auto dest: init_tables_unique callback_tables_unique cache_relmeta_tables_unique
        destroy_tables_unique prune_tables_unique split: sum.splits)

lemma run_tables_unique:
  "tables_unique s \<Longrightarrow> run ac cs s = Inr t \<Longrightarrow> tables_unique t"
  by (induction cs arbitrary: s) (auto split: sum.splits dest: exec_call_tables_unique)

lemma reachable_unique_keys:
  assumes "run ac cs process_start = Inr t" "bound_to t a tab"
  shows "unique_keys tab"
proof -
  have "tables_unique (process_start :: 'a process)"
    by (simp add: tables_unique_def process_start_def)
  from run_tables_unique [OF this assms(1)] bound_to_deref [OF assms(2)]
  show ?thesis by (rule tables_unique_deref)
qed

subsection \<open>The invalidation callback\<close>

lemma put_htab_twice: "put_htab a t' (put_htab a t s) = put_htab a t' s"
  by (simp add: put_htab_def)

lemma put_htab_fields:
  "RelMetaCache (put_htab a t s) = RelMetaCache s"
  "callback_registered (put_htab a t s) = callback_registered s"
  "relcache_callbacks (put_htab a t s) = relcache_callbacks s"
  "length (htabs (put_htab a t s)) = length (htabs s)"
  "b \<noteq> a \<Longrightarrow> htabs (put_htab a t s) ! b = htabs s ! b"
  by (simp_all add: put_htab_def)

lemma callback_bound:
  assumes "bound_to s a tab"
  shows "relmeta_cache_callback k s =
           Inr (put_htab a (case hash_search_find k tab of
                              None \<Rightarrow> tab
                            | Some i \<Rightarrow> tab[i := (tab ! i)\<lparr>is_valid := False\<rparr>]) s)"
  by (simp add: relmeta_cache_callback_def bound_to_handle [OF assms] bound_to_deref [OF assms]
      put_htab_same [OF assms] split: option.split)

lemma hash_search_find_rewrite_cached:
  "hash_search_find k (rewrite_cached f tab) = hash_search_find k tab"
  by (induction tab) (simp_all add: rewrite_cached_def)

lemma entry_updates_commute:
  "(e :: 'a entry)\<lparr>is_cached := c, is_valid := v\<rparr> = e\<lparr>is_valid := v, is_cached := c\<rparr>"
  by (cases e) simp

lemma rewrite_cached_invalidate:
  "i < length tab \<Longrightarrow>
   (rewrite_cached f tab)[i := (rewrite_cached f tab ! i)\<lparr>is_valid := False\<rparr>]
     = rewrite_cached f (tab[i := (tab ! i)\<lparr>is_valid := False\<rparr>])"
  by (simp add: rewrite_cached_def map_update entry_updates_commute)

subsection \<open>Registration of the callback\<close>

lemma init_registration:
  "pglogical_init_relmetacache ac s = Inr s' \<Longrightarrow>
   callback_registered s'
   \<and> relcache_callbacks s'
       = (if callback_registered s then relcache_callbacks s else Suc (relcache_callbacks s))"
  by (auto simp add: pglogical_init_relmetacache_def hash_create_def Let_def split: if_splits)

lemma other_calls_keep_registration:
  "exec_call ac c s = Inr s' \<Longrightarrow> c \<noteq> Init \<Longrightarrow>
   callback_registered s' = callback_registered s
   \<and> relcache_callbacks s' = relcache_callbacks s"
  by (cases c)
     (auto simp add: relmeta_cache_callback_def pglogical_cache_relmeta_def
        pglogical_destroy_relmetacache_def pglogical_prune_relmetacache_def
        hash_destroy_def put_htab_def Let_def
        split: option.splits sum.splits if_splits prod.splits)

lemma run_registration:
  "run ac cs s = Inr t \<Longrightarrow>
   relcache_callbacks s = (if callback_registered s then 1 else 0) \<Longrightarrow>
   relcache_callbacks t = (if callback_registered t then 1 else 0)
   \<and> callback_registered t = (callback_registered s \<or> Init \<in> set cs)"
proof (induction cs arbitrary: s)
  case Nil
  then show ?case by simp
next
  case (Cons c cs)
  from Cons.prems(1) obtain s1 where e: "exec_call ac c s = Inr s1" and r: "run ac cs s1 = Inr t"
    by (auto split: sum.splits)
  show ?case
  proof (cases "c = Init")
    case True
    with e have "pglogical_init_relmetacache ac s = Inr s1" by simp
    from init_registration [OF this] Cons.prems(2)
    have s1: "callback_registered s1" "relcache_callbacks s1 = 1"
      by (auto split: if_splits)
    from Cons.IH [OF r] s1 True show ?thesis by simp
  next
    case False
    from other_calls_keep_registration [OF e False] Cons.prems(2)
    have "relcache_callbacks s1 = (if callback_registered s1 then 1 else 0)"
      and "callback_registered s1 = callback_registered s"
      by simp_all
    with Cons.IH [OF r] False show ?thesis by auto
  qed
qed

section \<open>The claims\<close>

text \<open>
  C1. The claim: once an entry with \<open>is_cached\<close> set has been invalidated, the next lookup
  of its key does not report a hit. The code at that input: the callback clears
  \<open>is_valid\<close> of the entry for relation 42, and the lookup that follows returns
  \<open>hentry->is_cached\<close>, which is true, without looking at \<open>is_valid\<close>; the entry is left
  as it was.
\<close>

theorem lookup_after_invalidation_reports_hit:
  "relmeta_cache_callback 42 (session_of [\<lparr>relid = 42, is_cached = True, is_valid = True\<rparr>])
     = Inr (session_of [\<lparr>relid = 42, is_cached = True, is_valid = False\<rparr>])
   \<and> pglogical_cache_relmeta ac raw 42
       (session_of [\<lparr>relid = 42, is_cached = True, is_valid = False\<rparr>])
     = Inr (session_of [\<lparr>relid = 42, is_cached = True, is_valid = False\<rparr>], 0, True)"
  by (simp add: relmeta_cache_callback_def pglogical_cache_relmeta_def session_of_def
      deref_def put_htab_def hash_search_enter_def)

text \<open>
  C2. The claim: an entry created by the lookup has \<open>is_cached = false\<close> and
  \<open>is_valid = true\<close>. The code at an input where the element handed out by the hash table
  holds \<open>is_valid = false\<close> (as an element does that the pruning loop removed and the
  table hands out again): the lookup of relation 2 in an empty table creates the entry
  with \<open>is_cached = false\<close> and leaves \<open>is_valid\<close> false, and the next pruning pass
  removes the entry that was just created.
\<close>

theorem new_entry_keeps_allocator_is_valid:
  "pglogical_cache_relmeta ac \<lparr>relid = 1, is_cached = True, is_valid = False\<rparr> 2
       (session_of [])
     = Inr (session_of [\<lparr>relid = 2, is_cached = False, is_valid = False\<rparr>], 0, False)
   \<and> pglogical_prune_relmetacache
       (session_of [\<lparr>relid = 2, is_cached = False, is_valid = False\<rparr>])
     = Inr (session_of [])"
  by (cases ac)
     (simp_all add: pglogical_cache_relmeta_def pglogical_prune_relmetacache_def session_of_def
        deref_def put_htab_def hash_search_enter_def)

text \<open>
  C3. When the global points to a live table (which has unique keys, as every hash table
  has), pruning succeeds and leaves exactly the valid elements of the table, in their
  order: no element with \<open>is_valid = false\<close> remains, and every element that was
  valid before is still there with all its fields as they were. Nothing else in the state
  changes.
\<close>

theorem prune_removes_exactly_invalid:
  assumes "bound_to s a tab" and "unique_keys tab"
  shows "\<exists>tab'. pglogical_prune_relmetacache s = Inr (put_htab a tab' s)
           \<and> bound_to (put_htab a tab' s) a tab'
           \<and> tab' = filter is_valid tab
           \<and> (\<forall>e \<in> set tab'. is_valid e)
           \<and> (\<forall>e \<in> set tab. is_valid e \<longrightarrow> e \<in> set tab')
           \<and> unique_keys tab'"
proof -
  have "pglogical_prune_relmetacache s = Inr (put_htab a (filter is_valid tab) s)"
    by (simp add: pglogical_prune_relmetacache_def bound_to_handle [OF assms(1)]
        bound_to_deref [OF assms(1)] prune_loop_table [OF assms(2)])
  moreover have "unique_keys (filter is_valid tab)"
    using assms(2) by (simp add: unique_keys_def distinct_map_filter)
  ultimately show ?thesis
    using bound_to_put_htab [OF assms(1)] by simp
qed

theorem prune_removes_exactly_invalid_witness:
  "bound_to (session_of [\<lparr>relid = 1, is_cached = True, is_valid = False\<rparr>,
                          \<lparr>relid = 2, is_cached = True, is_valid = True\<rparr>]) 0
       [\<lparr>relid = 1, is_cached = True, is_valid = False\<rparr>,
        \<lparr>relid = 2, is_cached = True, is_valid = True\<rparr>]
   \<and> unique_keys [\<lparr>relid = 1, is_cached = True, is_valid = False\<rparr>,
                  \<lparr>relid = 2, is_cached = True, is_valid = True\<rparr>]
   \<and> pglogical_prune_relmetacache
        (session_of [\<lparr>relid = 1, is_cached = True, is_valid = False\<rparr>,
                     \<lparr>relid = 2, is_cached = True, is_valid = True\<rparr>])
      = Inr (session_of [\<lparr>relid = 2, is_cached = True, is_valid = True\<rparr>])"
proof -
  let ?tab = "[\<lparr>relid = 1, is_cached = True, is_valid = False\<rparr>,
               \<lparr>relid = 2, is_cached = True, is_valid = True\<rparr>] :: unit HTAB"
  have u: "unique_keys ?tab" by (simp add: unique_keys_def)
  from prune_removes_exactly_invalid [OF bound_session_of u] u bound_session_of [of ?tab]
  show ?thesis by (auto simp add: put_htab_def session_of_def)
qed

text \<open>
  C4. When the global points to a live table, the invalidation callback for key \<open>k\<close>
  succeeds and changes nothing but the table behind the global: the pointer, the
  registration flag, the registrations and the other tables stay. The table keeps its
  length; every element keeps its key, its \<open>is_cached\<close> flag and the rest of the
  struct; \<open>is_valid\<close> is never set, only cleared; an element with another key is
  unchanged; and the element found for \<open>k\<close> is invalid afterwards. The callback does not
  read \<open>is_cached\<close> either: overwriting the \<open>is_cached\<close> flags before the callback
  or after it gives the same state.
\<close>

theorem callback_only_clears_is_valid:
  assumes "bound_to s a tab"
  shows "\<exists>s' tab'. relmeta_cache_callback k s = Inr s'
           \<and> bound_to s' a tab'
           \<and> RelMetaCache s' = RelMetaCache s
           \<and> callback_registered s' = callback_registered s
           \<and> relcache_callbacks s' = relcache_callbacks s
           \<and> length (htabs s') = length (htabs s)
           \<and> (\<forall>b. b \<noteq> a \<longrightarrow> htabs s' ! b = htabs s ! b)
           \<and> length tab' = length tab
           \<and> (\<forall>i < length tab.
                  relid (tab' ! i) = relid (tab ! i)
                \<and> is_cached (tab' ! i) = is_cached (tab ! i)
                \<and> PGLRelMetaCacheEntry.more (tab' ! i) = PGLRelMetaCacheEntry.more (tab ! i)
                \<and> (is_valid (tab' ! i) \<longrightarrow> is_valid (tab ! i))
                \<and> (relid (tab ! i) \<noteq> k \<longrightarrow> tab' ! i = tab ! i))
           \<and> (\<forall>i. hash_search_find k tab = Some i \<longrightarrow> \<not> is_valid (tab' ! i))
           \<and> relmeta_cache_callback k (put_htab a (rewrite_cached f tab) s)
               = Inr (put_htab a (rewrite_cached f tab') s)"
proof -
  define tab' where
    "tab' = (case hash_search_find k tab of
               None \<Rightarrow> tab
             | Some i \<Rightarrow> tab[i := (tab ! i)\<lparr>is_valid := False\<rparr>])"
  have res: "relmeta_cache_callback k s = Inr (put_htab a tab' s)"
    unfolding tab'_def by (rule callback_bound [OF assms])
  have len: "length tab' = length tab"
    by (simp add: tab'_def split: option.split)
  have frame: "relid (tab' ! i) = relid (tab ! i)
                \<and> is_cached (tab' ! i) = is_cached (tab ! i)
                \<and> PGLRelMetaCacheEntry.more (tab' ! i) = PGLRelMetaCacheEntry.more (tab ! i)
                \<and> (is_valid (tab' ! i) \<longrightarrow> is_valid (tab ! i))
                \<and> (relid (tab ! i) \<noteq> k \<longrightarrow> tab' ! i = tab ! i)" if "i < length tab" for i
  proof (cases "hash_search_find k tab")
    case None
    then show ?thesis by (simp add: tab'_def)
  next
    case (Some j)
    from hash_search_find_Some [OF Some] that Some show ?thesis
      by (cases "i = j") (simp_all add: tab'_def)
  qed
  have hit: "\<not> is_valid (tab' ! i)" if "hash_search_find k tab = Some i" for i
    using hash_search_find_Some [OF that] that by (simp add: tab'_def)
  have "relmeta_cache_callback k (put_htab a (rewrite_cached f tab) s)
          = Inr (put_htab a (rewrite_cached f tab') s)"
  proof -
    have b: "bound_to (put_htab a (rewrite_cached f tab) s) a (rewrite_cached f tab)"
      by (rule bound_to_put_htab [OF assms])
    show ?thesis
    proof (cases "hash_search_find k tab")
      case None
      then show ?thesis
        by (simp add: callback_bound [OF b] hash_search_find_rewrite_cached put_htab_twice
            tab'_def)
    next
      case (Some j)
      from hash_search_find_Some [OF Some] have "j < length tab" by simp
      with Some show ?thesis
        by (simp add: callback_bound [OF b] hash_search_find_rewrite_cached put_htab_twice
            tab'_def rewrite_cached_invalidate)
    qed
  qed
  with res len frame hit bound_to_put_htab [OF assms, of tab'] show ?thesis
    by (intro exI [of _ "put_htab a tab' s"] exI [of _ tab']) (simp add: put_htab_fields)
qed

theorem callback_only_clears_is_valid_witness:
  "relmeta_cache_callback 1
     (session_of [\<lparr>relid = 1, is_cached = True, is_valid = True\<rparr>,
                  \<lparr>relid = 2, is_cached = True, is_valid = True\<rparr>])
   = Inr (session_of [\<lparr>relid = 1, is_cached = True, is_valid = False\<rparr>,
                      \<lparr>relid = 2, is_cached = True, is_valid = True\<rparr>])"
proof -
  let ?tab = "[\<lparr>relid = 1, is_cached = True, is_valid = True\<rparr>,
               \<lparr>relid = 2, is_cached = True, is_valid = True\<rparr>] :: unit HTAB"
  from callback_only_clears_is_valid [OF bound_session_of, of 1 ?tab "\<lambda>k b. b"]
  obtain s' tab' where r: "relmeta_cache_callback 1 (session_of ?tab) = Inr s'"
    and b: "bound_to s' 0 tab'"
    and h: "RelMetaCache s' = RelMetaCache (session_of ?tab)"
    and l: "length tab' = length ?tab"
    by blast
  have "relmeta_cache_callback 1 (session_of ?tab)
          = Inr (session_of [\<lparr>relid = 1, is_cached = True, is_valid = False\<rparr>,
                             \<lparr>relid = 2, is_cached = True, is_valid = True\<rparr>])"
    by (simp add: relmeta_cache_callback_def session_of_def deref_def put_htab_def)
  with r show ?thesis by simp
qed

text \<open>
  C5. An initialisation that finds \<open>callback_registered\<close> false registers the callback
  once more and sets the flag; one that finds it true leaves the registrations and the
  flag as they are. Hence after any sequence of calls from the start of the process that
  runs to its end, the callback is registered exactly once if the sequence holds an
  initialisation, and not at all otherwise. An initialisation fails only on its first
  assertion, in a build that checks assertions, when a table is still bound.
\<close>

theorem callback_registered_once:
  "(pglogical_init_relmetacache ac (s :: 'a process) = Inr s' \<longrightarrow>
      callback_registered s'
      \<and> relcache_callbacks s'
          = (if callback_registered s then relcache_callbacks s else Suc (relcache_callbacks s)))
   \<and> (run ac cs process_start = Inr (t :: 'a process) \<longrightarrow>
        callback_registered t = (Init \<in> set cs)
        \<and> relcache_callbacks t = (if Init \<in> set cs then 1 else 0))
   \<and> ((\<exists>s'. pglogical_init_relmetacache ac s = Inr s') \<longleftrightarrow> \<not> (ac \<and> RelMetaCache s \<noteq> None))"
proof (intro conjI impI)
  show "(\<exists>s'. pglogical_init_relmetacache ac s = Inr s') \<longleftrightarrow> \<not> (ac \<and> RelMetaCache s \<noteq> None)"
    by (auto simp add: pglogical_init_relmetacache_def hash_create_def Let_def)
next
  assume "pglogical_init_relmetacache ac s = Inr s'"
  from init_registration [OF this]
  show "callback_registered s'"
    and "relcache_callbacks s'
          = (if callback_registered s then relcache_callbacks s else Suc (relcache_callbacks s))"
    by simp_all
next
  assume r: "run ac cs process_start = Inr t"
  have "relcache_callbacks (process_start :: 'a process)
          = (if callback_registered (process_start :: 'a process) then 1 else 0)"
    by (simp add: process_start_def)
  from run_registration [OF r this]
  show "callback_registered t = (Init \<in> set cs)"
    and "relcache_callbacks t = (if Init \<in> set cs then 1 else 0)"
    by (simp_all add: process_start_def)
qed

theorem callback_registered_once_witness:
  "run True [Init, Destroy, Init, Destroy, Init] (process_start :: unit process)
     = Inr \<lparr>RelMetaCache = Some 2, callback_registered = True,
            htabs = [None, None, Some []], relcache_callbacks = 1\<rparr>
   \<and> relcache_callbacks \<lparr>RelMetaCache = Some 2, callback_registered = True,
            htabs = [None, None, Some []], relcache_callbacks = 1\<rparr>
       = (if Init \<in> set [Init, Destroy, Init, Destroy, Init :: unit call] then 1 else 0)"
proof -
  have r: "run True [Init, Destroy, Init, Destroy, Init] (process_start :: unit process)
     = Inr \<lparr>RelMetaCache = Some 2, callback_registered = True,
            htabs = [None, None, Some []], relcache_callbacks = 1\<rparr>"
    by (simp add: process_start_def pglogical_init_relmetacache_def hash_create_def
        pglogical_destroy_relmetacache_def hash_destroy_def deref_def)
  from callback_registered_once
    [of True process_start process_start "[Init, Destroy, Init, Destroy, Init]"
        "\<lparr>RelMetaCache = Some 2, callback_registered = True,
            htabs = [None, None, Some []], relcache_callbacks = 1\<rparr>"] r
  show ?thesis by simp
qed

text \<open>
  C6. An invalidation that arrives while \<open>RelMetaCache\<close> is \<open>NULL\<close>, or for a key that
  has no element in the table behind the global, returns without an error and leaves the
  whole state (the pointer, the registration flag, every table and every entry) as it
  was.
\<close>

theorem callback_without_target_is_noop:
  assumes "RelMetaCache s = None \<or> (\<exists>a tab. bound_to s a tab \<and> k \<notin> relid ` set tab)"
  shows "relmeta_cache_callback k s = Inr s"
  using assms
proof
  assume "RelMetaCache s = None"
  then show ?thesis by (simp add: relmeta_cache_callback_def)
next
  assume "\<exists>a tab. bound_to s a tab \<and> k \<notin> relid ` set tab"
  then obtain a tab where b: "bound_to s a tab" and k: "k \<notin> relid ` set tab" by blast
  from k have "hash_search_find k tab = None" by (simp add: hash_search_find_None)
  then show ?thesis
    by (simp add: relmeta_cache_callback_def bound_to_handle [OF b] bound_to_deref [OF b])
qed

theorem callback_without_target_is_noop_witness:
  "relmeta_cache_callback 5 (process_start :: unit process) = Inr process_start
   \<and> relmeta_cache_callback 5 (session_of [\<lparr>relid = 4, is_cached = True, is_valid = True\<rparr>])
       = Inr (session_of [\<lparr>relid = 4, is_cached = True, is_valid = True\<rparr>])"
proof -
  have 1: "RelMetaCache (process_start :: unit process) = None
           \<or> (\<exists>a tab. bound_to (process_start :: unit process) a tab \<and> 5 \<notin> relid ` set tab)"
    by (simp add: process_start_def)
  have "bound_to (session_of [\<lparr>relid = 4, is_cached = True, is_valid = True\<rparr>]) 0
          [\<lparr>relid = 4, is_cached = True, is_valid = True\<rparr>]
        \<and> (5::Oid) \<notin> relid ` set [\<lparr>relid = 4, is_cached = True, is_valid = True\<rparr>]"
    using bound_session_of by simp
  then have 2: "RelMetaCache (session_of [\<lparr>relid = 4, is_cached = True, is_valid = True\<rparr>]) = None
           \<or> (\<exists>a tab. bound_to (session_of [\<lparr>relid = 4, is_cached = True, is_valid = True\<rparr>]) a tab
                 \<and> 5 \<notin> relid ` set tab)"
    by blast
  from callback_without_target_is_noop [OF 1] callback_without_target_is_noop [OF 2]
  show ?thesis by simp
qed

text \<open>
  C7. The claim: tearing the cache down unbinds the global before the table is destroyed,
  so that no intermediate state has the global pointing to a destroyed table. The code
  calls \<open>hash_destroy(RelMetaCache)\<close> first and sets \<open>RelMetaCache = NULL\<close> after it:
  for a session with one entry, the state between the two statements has the global
  still pointing to the destroyed table, and a callback run in that state would read
  freed memory.
\<close>

theorem destroy_leaves_handle_bound_midway:
  "destroy_steps (session_of [\<lparr>relid = 42, is_cached = True, is_valid = True\<rparr>])
     = [Inr \<lparr>RelMetaCache = Some 0, callback_registered = True, htabs = [None],
             relcache_callbacks = 1\<rparr>,
        Inr \<lparr>RelMetaCache = None, callback_registered = True, htabs = [None],
             relcache_callbacks = 1\<rparr>]
   \<and> dangling \<lparr>RelMetaCache = Some 0, callback_registered = True,
                htabs = [None :: unit HTAB option], relcache_callbacks = 1\<rparr>
   \<and> relmeta_cache_callback 42
        \<lparr>RelMetaCache = Some 0, callback_registered = True,
         htabs = [None :: unit HTAB option], relcache_callbacks = 1\<rparr>
       = Inl UseAfterFree"
  by (simp add: destroy_steps_def session_of_def hash_destroy_def deref_def dangling_def
      relmeta_cache_callback_def)

text \<open>
  C7, as the code has it. When the global points to a live table, tearing the cache down
  goes through two states: first the table is destroyed while the global still points to
  it, then the global is set to \<open>NULL\<close>. The second state is the result; in it the
  global is unbound and an invalidation does nothing.
\<close>

theorem destroy_then_unbind:
  assumes "bound_to s a tab"
  shows "\<exists>s1 s2. destroy_steps s = [Inr s1, Inr s2]
           \<and> pglogical_destroy_relmetacache s = Inr s2
           \<and> RelMetaCache s1 = Some a \<and> htabs s1 ! a = None \<and> dangling s1
           \<and> RelMetaCache s2 = None \<and> htabs s2 = htabs s1 \<and> \<not> dangling s2
           \<and> relmeta_cache_callback k s2 = Inr s2"
proof -
  let ?s1 = "s\<lparr>htabs := (htabs s)[a := None]\<rparr>"
  let ?s2 = "?s1\<lparr>RelMetaCache := None\<rparr>"
  have d: "hash_destroy a s = Inr ?s1"
    by (simp add: hash_destroy_def bound_to_deref [OF assms])
  have a: "a < length (htabs s)" and h: "RelMetaCache s = Some a"
    using assms by (simp_all add: bound_to_def)
  have "destroy_steps s = [Inr ?s1, Inr ?s2]"
    by (simp add: destroy_steps_def h d)
  moreover have "pglogical_destroy_relmetacache s = Inr ?s2"
    by (simp add: pglogical_destroy_relmetacache_def h d)
  moreover have "dangling ?s1" "htabs ?s1 ! a = None"
    using a h by (simp_all add: dangling_def deref_def)
  moreover have "\<not> dangling ?s2" "relmeta_cache_callback k ?s2 = Inr ?s2"
    by (simp_all add: dangling_def relmeta_cache_callback_def)
  ultimately show ?thesis
    using h by (intro exI [of _ ?s1] exI [of _ ?s2]) simp
qed

theorem destroy_then_unbind_witness:
  "bound_to (session_of [\<lparr>relid = 42, is_cached = True, is_valid = True\<rparr>]) 0
     [\<lparr>relid = 42, is_cached = True, is_valid = True\<rparr>]
   \<and> pglogical_destroy_relmetacache
       (session_of [\<lparr>relid = 42, is_cached = True, is_valid = True\<rparr>])
      = Inr \<lparr>RelMetaCache = None, callback_registered = True, htabs = [None],
             relcache_callbacks = 1\<rparr>"
proof -
  let ?tab = "[\<lparr>relid = 42, is_cached = True, is_valid = True\<rparr>] :: unit HTAB"
  from destroy_then_unbind [OF bound_session_of, of ?tab 42]
  obtain s1 s2 where "destroy_steps (session_of ?tab) = [Inr s1, Inr s2]"
    and "pglogical_destroy_relmetacache (session_of ?tab) = Inr s2"
    by blast
  moreover have "destroy_steps (session_of ?tab)
     = [Inr \<lparr>RelMetaCache = Some 0, callback_registered = True, htabs = [None],
             relcache_callbacks = 1\<rparr>,
        Inr \<lparr>RelMetaCache = None, callback_registered = True, htabs = [None],
             relcache_callbacks = 1\<rparr>]"
    by (simp add: destroy_steps_def session_of_def hash_destroy_def deref_def)
  ultimately show ?thesis using bound_session_of [of ?tab] by simp
qed

text \<open>
  C8. In the pruning loop, when the scan hands out an element with \<open>is_valid = false\<close>
  (after any number of valid ones, which are skipped), the removal of its key decides
  how the loop goes on: if the table has no element with that key, the loop stops with
  the error "hash table corrupted" whatever elements the scan still holds; if it has one,
  that element is removed and the loop goes on with the rest of the scan.
\<close>

theorem prune_loop_failed_removal_is_error:
  assumes "\<forall>e \<in> set pre. is_valid e" and "\<not> is_valid hentry"
  shows "(relid hentry \<notin> relid ` set tab \<longrightarrow>
            prune_loop (pre @ hentry # rest) tab = Inl HashTableCorrupted)
       \<and> (relid hentry \<in> relid ` set tab \<longrightarrow>
            (\<exists>tab'. hash_search_remove (relid hentry) tab = Some tab'
                  \<and> Suc (length tab') = length tab
                  \<and> prune_loop (pre @ hentry # rest) tab = prune_loop rest tab'))"
proof -
  have skip: "prune_loop (pre @ es) tab = prune_loop es tab" for es
    using assms(1) by (induction pre) auto
  have len: "hash_search_remove k t = Some t' \<Longrightarrow> Suc (length t') = length t" for k and t t' :: "'a HTAB"
    by (induction t arbitrary: t') (auto split: if_splits)
  show ?thesis
  proof (cases "hash_search_remove (relid hentry) tab")
    case None
    then have "relid hentry \<notin> relid ` set tab"
      by (simp add: hash_search_remove_None)
    then show ?thesis using None assms(2) skip [of "hentry # rest"]
      by simp
  next
    case (Some tab')
    then have "relid hentry \<in> relid ` set tab"
      using hash_search_remove_None [of "relid hentry" tab] by auto
    then show ?thesis using Some assms(2) skip [of "hentry # rest"] len [OF Some]
      by simp
  qed
qed

theorem prune_loop_failed_removal_is_error_witness:
  "prune_loop ([\<lparr>relid = 1, is_cached = True, is_valid = True\<rparr>]
                 @ \<lparr>relid = 7, is_cached = True, is_valid = False\<rparr>
                 # [\<lparr>relid = 8, is_cached = True, is_valid = True\<rparr>])
      [\<lparr>relid = 1, is_cached = True, is_valid = True\<rparr>,
       \<lparr>relid = 8, is_cached = True, is_valid = True\<rparr>]
    = Inl HashTableCorrupted"
  using prune_loop_failed_removal_is_error
    [of "[\<lparr>relid = 1, is_cached = True, is_valid = True\<rparr>]"
        "\<lparr>relid = 7, is_cached = True, is_valid = False\<rparr>"
        "[\<lparr>relid = 1, is_cached = True, is_valid = True\<rparr>,
          \<lparr>relid = 8, is_cached = True, is_valid = True\<rparr>]"
        "[\<lparr>relid = 8, is_cached = True, is_valid = True\<rparr>]"]
  by simp

text \<open>
  C9. For a key that is already in the table, the lookup returns a pointer to the element
  with that key together with its \<open>is_cached\<close> flag, and the state after the call is the
  state before it: no field of any entry is written, \<open>is_valid\<close> included.
\<close>

theorem cache_relmeta_existing_unchanged:
  assumes "bound_to s a tab" and "k \<in> relid ` set tab"
  shows "\<exists>i. i < length tab \<and> relid (tab ! i) = k
           \<and> pglogical_cache_relmeta ac raw k s = Inr (s, i, is_cached (tab ! i))"
proof -
  obtain i where f: "hash_search_find k tab = Some i"
    using assms(2) hash_search_find_None [of k tab] by (cases "hash_search_find k tab") auto
  have "pglogical_cache_relmeta ac raw k s = Inr (s, i, is_cached (tab ! i))"
    by (simp add: pglogical_cache_relmeta_def bound_to_handle [OF assms(1)]
        bound_to_deref [OF assms(1)] hash_search_enter_def f put_htab_same [OF assms(1)])
  with hash_search_find_Some [OF f] show ?thesis by blast
qed

theorem cache_relmeta_existing_unchanged_witness:
  "\<exists>i. i < length [\<lparr>relid = 7, is_cached = True, is_valid = False\<rparr>]
       \<and> relid ([\<lparr>relid = 7, is_cached = True, is_valid = False\<rparr>] ! i) = (7::Oid)
       \<and> pglogical_cache_relmeta True \<lparr>relid = 0, is_cached = False, is_valid = True\<rparr> 7
           (session_of [\<lparr>relid = 7, is_cached = True, is_valid = False\<rparr>])
         = Inr (session_of [\<lparr>relid = 7, is_cached = True, is_valid = False\<rparr>], i,
                is_cached ([\<lparr>relid = 7, is_cached = True, is_valid = False\<rparr>] ! i))"
  using cache_relmeta_existing_unchanged
    [OF bound_session_of, of 7 "[\<lparr>relid = 7, is_cached = True, is_valid = False\<rparr>]"
      True "\<lparr>relid = 0, is_cached = False, is_valid = True\<rparr>"]
  by simp

text \<open>
  C10. Pruning reads through \<open>RelMetaCache\<close> without a test: it returns normally
  exactly when the global points to a live table. With the global \<open>NULL\<close> it fails on
  a null pointer, where the callback and the teardown return and leave the state as it
  was.
\<close>

theorem prune_needs_bound_store:
  "(RelMetaCache s = None \<longrightarrow>
      pglogical_prune_relmetacache s = Inl NullPointerDereference
      \<and> relmeta_cache_callback k s = Inr s
      \<and> pglogical_destroy_relmetacache s = Inr s)
   \<and> ((\<exists>s'. pglogical_prune_relmetacache s = Inr s') \<longleftrightarrow> (\<exists>a tab. bound_to s a tab))"
proof (intro conjI impI iffI)
  assume n: "RelMetaCache s = None"
  then show "pglogical_prune_relmetacache s = Inl NullPointerDereference"
    by (simp add: pglogical_prune_relmetacache_def)
  from n show "relmeta_cache_callback k s = Inr s"
    by (simp add: relmeta_cache_callback_def)
  from n show "pglogical_destroy_relmetacache s = Inr s"
    by (simp add: pglogical_destroy_relmetacache_def)
next
  assume "\<exists>s'. pglogical_prune_relmetacache s = Inr s'"
  then show "\<exists>a tab. bound_to s a tab"
    by (auto simp add: pglogical_prune_relmetacache_def bound_to_def deref_def
        split: option.splits sum.splits if_splits)
next
  assume "\<exists>a tab. bound_to s a tab"
  then obtain a tab where b: "bound_to s a tab" by blast
  obtain tab' where "prune_loop tab tab = Inr tab'"
    using prune_loop_total [of tab tab] by auto
  then show "\<exists>s'. pglogical_prune_relmetacache s = Inr s'"
    by (simp add: pglogical_prune_relmetacache_def bound_to_handle [OF b] bound_to_deref [OF b])
qed

theorem prune_needs_bound_store_witness:
  "pglogical_destroy_relmetacache (session_of [])
     = Inr \<lparr>RelMetaCache = None, callback_registered = True, htabs = [None],
            relcache_callbacks = 1\<rparr>
   \<and> pglogical_prune_relmetacache
        \<lparr>RelMetaCache = None, callback_registered = True, htabs = [None :: unit HTAB option],
         relcache_callbacks = 1\<rparr>
      = Inl NullPointerDereference
   \<and> (\<exists>s'. pglogical_prune_relmetacache (session_of []) = Inr s')"
proof -
  let ?s = "\<lparr>RelMetaCache = None, callback_registered = True,
             htabs = [None :: unit HTAB option], relcache_callbacks = 1\<rparr>"
  have d: "pglogical_destroy_relmetacache (session_of []) = Inr ?s"
    by (simp add: pglogical_destroy_relmetacache_def session_of_def hash_destroy_def deref_def)
  have "\<exists>a tab. bound_to (session_of []) a tab"
    using bound_session_of [of "[]"] by blast
  with prune_needs_bound_store [of ?s 0] prune_needs_bound_store [of "session_of []" 0] d
  show ?thesis by simp
qed

end
